theory Spec2Isabelle
  imports Main "HOL-Library.Word"
begin

unbundle bit_operations_syntax

section \<open>Bytes, C strings and blocks of memory\<close>

text \<open>
  A C string is modelled by the list of its characters before the terminator, so
  \<open>strlen\<close> is \<open>length\<close> and a text never contains the NUL byte itself.
\<close>

abbreviation NUL :: char where "NUL \<equiv> CHR 0x00"
abbreviation ESC :: char where "ESC \<equiv> CHR 0x1B"
abbreviation NL :: char where "NL \<equiv> CHR 0x0A"
abbreviation SP :: char where "SP \<equiv> CHR 0x20"

text \<open>
  A block of memory is the list of its bytes. C leaves a store or a load outside the
  block undefined. The model does not guess what such a store destroys: the block
  stays as it is and the offending index is appended to a log. A run is memory safe
  when it leaves the log as it found it.
\<close>

type_synonym mem = "char list \<times> int list"

definition poke :: "mem \<Rightarrow> int \<Rightarrow> char \<Rightarrow> mem" where
  "poke m i c =
     (if 0 \<le> i \<and> i < int (length (fst m)) then ((fst m)[nat i := c], snd m)
      else (fst m, snd m @ [i]))"

text \<open>A load outside the block is logged as well; it is taken to read NUL.\<close>

definition load :: "mem \<Rightarrow> int \<Rightarrow> char \<times> mem" where
  "load m i =
     (if 0 \<le> i \<and> i < int (length (fst m)) then (fst m ! nat i, m)
      else (NUL, (fst m, snd m @ [i])))"

text \<open>\<open>stpcpy(dest + i, text)\<close>: the characters of the text, then the terminator.\<close>

fun stpcpy :: "mem \<Rightarrow> int \<Rightarrow> string \<Rightarrow> mem" where
  "stpcpy m i [] = poke m i NUL"
| "stpcpy m i (c # cs) = stpcpy (poke m i c) (i + 1) cs"

section \<open>The session, the platform and the process\<close>

record termios =
  c_iflag :: "32 word"
  c_oflag :: "32 word"
  c_cflag :: "32 word"
  c_lflag :: "32 word"
  c_cc :: "8 word list"

text \<open>
  \<open>struct sctui\<close>. The \<open>int\<close> fields are 32-bit words; \<open>buf\<close> is the block the
  pointer refers to; \<open>size_t\<close> is \<open>nat\<close> (under the assertion of the append and
  \<open>buf_used \<le> buf_size\<close> no sum of sizes comes near the range of \<open>size_t\<close>).
\<close>

record sctui =
  cur :: termios
  orig :: termios
  cursor_x :: "32 word"
  cursor_y :: "32 word"
  w :: "32 word"
  h :: "32 word"
  buf :: "char list"
  buf_size :: nat
  buf_used :: nat

text \<open>
  The macros of \<open>stdio.h\<close> and \<open>termios.h\<close> that the source uses are not part of the
  repository; they are parameters of the model.
\<close>

record platform =
  BUFSIZ :: nat
  CS8 :: "32 word"
  IXON :: "32 word"
  ICRNL :: "32 word"
  ECHO :: "32 word"
  ICANON :: "32 word"
  ISIG :: "32 word"
  OPOST :: "32 word"
  VMIN :: nat
  VTIME :: nat

text \<open>
  The process: the caller's session structs by address, the static pointer
  \<open>global_sctui\<close> (\<open>None\<close> is the null pointer), the attributes of the terminal, every
  \<open>write\<close> to standard output and to standard error in order, and the log of accesses
  outside the draw buffer.
\<close>

record world =
  structs :: "nat \<Rightarrow> sctui"
  global_sctui :: "nat option"
  tty :: termios
  tty_out :: "string list"
  err_out :: "string list"
  strays :: "int list"

text \<open>A call returns, or the process ends in \<open>exit\<close> or in a failed \<open>assert\<close>.\<close>

datatype outcome = Returns world | Exits nat world | Aborts world

definition and_then :: "outcome \<Rightarrow> (world \<Rightarrow> outcome) \<Rightarrow> outcome" where
  "and_then r f = (case r of Returns wd \<Rightarrow> f wd | Exits n wd \<Rightarrow> Exits n wd | Aborts wd \<Rightarrow> Aborts wd)"

section \<open>The draw buffer\<close>

definition ESC_CLEAR_SCREEN :: string where "ESC_CLEAR_SCREEN = ESC # ''[2J''"
definition ESC_CLOSE_ALT_SCREEN :: string where "ESC_CLOSE_ALT_SCREEN = ESC # ''[?1049l''"
definition ESC_OPEN_ALT_SCREEN :: string where "ESC_OPEN_ALT_SCREEN = ESC # ''[?1049h''"
definition ESC_HIDE_CURSOR :: string where "ESC_HIDE_CURSOR = ESC # ''[?25l''"
definition ESC_SHOW_CURSOR :: string where "ESC_SHOW_CURSOR = ESC # ''[?25h''"

text \<open>
  \<open>sctui_commit\<close>: one \<open>write\<close> of the first \<open>buf_used\<close> bytes of the block, then
  \<open>buf_used = 0\<close>. The \<open>write\<close> is taken to transfer all the bytes it is given.
\<close>

definition sctui_commit :: "nat \<Rightarrow> world \<Rightarrow> world" where
  "sctui_commit p wd =
     (let s = structs wd p in
      wd\<lparr>tty_out := tty_out wd @ [take (buf_used s) (buf s)],
         strays := strays wd @
           (if length (buf s) < buf_used s then [int (length (buf s))] else []),
         structs := (structs wd)(p := s\<lparr>buf_used := 0\<rparr>)\<rparr>)"

text \<open>
  \<open>_sctui_buf_append\<close> (an Isabelle name cannot start with an underscore). The
  assertion is compiled in: a text longer than \<open>BUFSIZ\<close> aborts the process.
\<close>

definition sctui_buf_append :: "platform \<Rightarrow> nat \<Rightarrow> string \<Rightarrow> world \<Rightarrow> outcome" where
  "sctui_buf_append pf p text wd =
     (let siz = length text in
      if \<not> siz \<le> BUFSIZ pf then Aborts wd
      else
        let wd1 = (if buf_used (structs wd p) + siz > buf_size (structs wd p)
                   then sctui_commit p wd else wd);
            s1 = structs wd1 p;
            m = stpcpy (buf s1, strays wd1) (int (buf_used s1)) text
        in Returns (wd1\<lparr>strays := snd m,
                        structs := (structs wd1)
                          (p := s1\<lparr>buf := fst m, buf_used := buf_used s1 + siz\<rparr>)\<rparr>))"

definition sctui_hide_cursor :: "platform \<Rightarrow> nat \<Rightarrow> world \<Rightarrow> outcome" where
  "sctui_hide_cursor pf p wd = sctui_buf_append pf p ESC_HIDE_CURSOR wd"

definition sctui_show_cursor :: "platform \<Rightarrow> nat \<Rightarrow> world \<Rightarrow> outcome" where
  "sctui_show_cursor pf p wd = sctui_buf_append pf p ESC_SHOW_CURSOR wd"

text \<open>The bytes the draw buffer holds, and the shape of a session after \<open>sctui_init\<close>.\<close>

definition held :: "sctui \<Rightarrow> string" where
  "held s = take (buf_used s) (buf s)"

definition sctui_ok :: "platform \<Rightarrow> sctui \<Rightarrow> bool" where
  "sctui_ok pf s \<longleftrightarrow>
     buf_size s = BUFSIZ pf \<and> length (buf s) = BUFSIZ pf \<and> buf_used s \<le> buf_size s"

section \<open>Cursor moves\<close>

text \<open>The conversion \<open>%u\<close> of \<open>sprintf\<close>: an unsigned value in decimal.\<close>

definition digit :: "nat \<Rightarrow> char" where
  "digit d = ''0123456789'' ! d"

function dec :: "nat \<Rightarrow> string" where
  "dec n = (if n < 10 then [digit n] else dec (n div 10) @ [digit (n mod 10)])"
  by pat_completeness auto
termination
  by (relation "measure id") auto

declare dec.simps [simp del]

text \<open>The number that a string of decimal digits denotes.\<close>

definition decimal_value :: "string \<Rightarrow> nat" where
  "decimal_value cs = foldl (\<lambda>a c. 10 * a + (of_char c - 48)) 0 cs"

text \<open>
  \<open>sprintf(b, "\x1b[%u;%uH", y, x)\<close>: the row comes first. \<open>%u\<close> reads the \<open>int\<close>
  argument as unsigned, so the text has at most 24 characters and fits \<open>char b[32]\<close>
  (lemma \<open>length_sprintf_cursor\<close>).
\<close>

definition sprintf_cursor :: "32 word \<Rightarrow> 32 word \<Rightarrow> string" where
  "sprintf_cursor y x = ESC # ''['' @ dec (unat y) @ '';'' @ dec (unat x) @ ''H''"

definition sctui_cursor :: "platform \<Rightarrow> nat \<Rightarrow> 32 word \<Rightarrow> 32 word \<Rightarrow> world \<Rightarrow> outcome" where
  "sctui_cursor pf p x y wd =
     (if cursor_x (structs wd p) = x \<and> cursor_y (structs wd p) = y then Returns wd
      else and_then (sctui_buf_append pf p (sprintf_cursor y x) wd)
             (\<lambda>wd1. Returns (wd1\<lparr>structs := (structs wd1)
                (p := (structs wd1 p)\<lparr>cursor_x := x, cursor_y := y\<rparr>)\<rparr>)))"

definition sctui_text :: "platform \<Rightarrow> nat \<Rightarrow> 32 word \<Rightarrow> 32 word \<Rightarrow> string \<Rightarrow> world \<Rightarrow> outcome" where
  "sctui_text pf p x y text wd =
     (let ox = cursor_x (structs wd p); oy = cursor_y (structs wd p) in
      and_then (sctui_cursor pf p x y wd)
        (\<lambda>wd1. and_then (sctui_buf_append pf p text wd1) (sctui_cursor pf p ox oy)))"

section \<open>The life of a session\<close>

text \<open>\<open>_sctui_die\<close>: the message goes to standard error and the process exits with 1.\<close>

definition sctui_die :: "string \<Rightarrow> world \<Rightarrow> outcome" where
  "sctui_die msg wd = Exits 1 (wd\<lparr>err_out := err_out wd @ [msg]\<rparr>)"

definition sctui_clear :: "world \<Rightarrow> world" where
  "sctui_clear wd = wd\<lparr>tty_out := tty_out wd @ [take 4 ESC_CLEAR_SCREEN]\<rparr>"

definition sctui_fini :: "world \<Rightarrow> outcome" where
  "sctui_fini wd =
     (case global_sctui wd of
        None \<Rightarrow> Aborts wd
      | Some g \<Rightarrow> Returns (wd\<lparr>tty_out := tty_out wd @ [take 8 ESC_CLOSE_ALT_SCREEN],
                              tty := orig (structs wd g)\<rparr>))"

text \<open>
  \<open>struct winsize\<close> as \<open>ioctl(TIOCGWINSZ)\<close> fills it; the result of the call is
  \<open>None\<close> when \<open>ioctl\<close> returns -1.
\<close>

record winsize =
  ws_row :: "16 word"
  ws_col :: "16 word"
  ws_xpixel :: "16 word"
  ws_ypixel :: "16 word"

definition sctui_get_win :: "nat \<Rightarrow> winsize option \<Rightarrow> world \<Rightarrow> outcome" where
  "sctui_get_win p ioctl wd =
     (case ioctl of
        None \<Rightarrow> and_then (sctui_fini wd) (sctui_die (''[sctui]: failed to get winsize'' @ [NL]))
      | Some ws \<Rightarrow>
          if ws_col ws = 0
          then and_then (sctui_fini wd) (sctui_die (''[sctui]: failed to get winsize'' @ [NL]))
          else Returns (wd\<lparr>structs := (structs wd)
                 (p := (structs wd p)
                    \<lparr>w := (if ws_col ws \<noteq> 0 then ucast (ws_col ws) else 80),
                     h := (if ws_row ws \<noteq> 0 then ucast (ws_row ws) else 24)\<rparr>)\<rparr>))"

text \<open>
  \<open>sctui_init\<close>. The result of the window-size query and whether \<open>calloc\<close> succeeds
  come from the environment; \<open>tcgetattr\<close> and \<open>tcsetattr\<close> are taken to succeed (the
  source does not look at their results).
\<close>

definition raw_mode :: "platform \<Rightarrow> termios \<Rightarrow> termios" where
  "raw_mode pf t =
     t\<lparr>c_cflag := c_cflag t OR CS8 pf,
       c_iflag := c_iflag t AND NOT (IXON pf OR ICRNL pf),
       c_lflag := c_lflag t AND NOT (ECHO pf OR ICANON pf OR ISIG pf),
       c_oflag := c_oflag t AND NOT (OPOST pf),
       c_cc := (c_cc t)[VMIN pf := 0, VTIME pf := 1]\<rparr>"

definition sctui_init :: "platform \<Rightarrow> nat \<Rightarrow> winsize option \<Rightarrow> bool \<Rightarrow> world \<Rightarrow> outcome" where
  "sctui_init pf p ioctl calloc_ok wd =
     (if global_sctui wd \<noteq> None then sctui_die (''[sctui]: initialized'' @ [NL]) wd
      else
        let s1 = (structs wd p)\<lparr>orig := tty wd\<rparr>;
            s2 = s1\<lparr>cur := raw_mode pf (orig s1)\<rparr>;
            wd2 = wd\<lparr>structs := (structs wd)(p := s2), global_sctui := Some p,
                    tty := cur s2, tty_out := tty_out wd @ [take 8 ESC_OPEN_ALT_SCREEN]\<rparr>
        in and_then (sctui_get_win p ioctl wd2)
             (\<lambda>wd3.
                let s3 = (structs wd3 p)\<lparr>cursor_x := 1, cursor_y := 1\<rparr>;
                    wd4 = wd3\<lparr>structs := (structs wd3)(p := s3)\<rparr>
                in if \<not> calloc_ok then sctui_die (''failed to calloc'' @ [NL]) wd4
                   else Returns (wd4\<lparr>structs := (structs wd4)
                          (p := s3\<lparr>buf := replicate (BUFSIZ pf) NUL,
                                   buf_size := BUFSIZ pf, buf_used := 0\<rparr>),
                        tty_out := tty_out wd4 @ [ESC_CLEAR_SCREEN]\<rparr>)))"

section \<open>Reading a key\<close>

text \<open>
  \<open>sctui_grab_key\<close>: \<open>read(STDIN_FILENO, keybuf, 1)\<close>. The key buffer is the memory of
  \<open>int keybuf[3]\<close>, byte by byte. The first argument is what the terminal has to
  deliver before the timeout of the raw mode runs out: with nothing to deliver \<open>read\<close>
  returns 0 and stores nothing. The function is \<open>void\<close>: what the caller gets is the
  key buffer.
\<close>

definition sctui_grab_key :: "char list \<Rightarrow> char list \<Rightarrow> char list \<times> char list" where
  "sctui_grab_key pending keybuf =
     (case pending of
        [] \<Rightarrow> ([], keybuf)
      | c # rest \<Rightarrow> (rest, keybuf[0 := c]))"

section \<open>Formatting a line\<close>

text \<open>
  \<open>strncpy(dest + i, text, n)\<close>: exactly \<open>n\<close> bytes are stored, the characters of the
  text and then NUL bytes when the text is shorter.
\<close>

fun strncpy :: "mem \<Rightarrow> int \<Rightarrow> string \<Rightarrow> nat \<Rightarrow> mem" where
  "strncpy m i cs 0 = m"
| "strncpy m i [] (Suc n) = strncpy (poke m i NUL) (i + 1) [] n"
| "strncpy m i (c # cs) (Suc n) = strncpy (poke m i c) (i + 1) cs n"

text \<open>
  The conversions of the source: \<open>strlen\<close> gives a \<open>size_t\<close> that is assigned to an
  \<open>int\<close> (32 bits, two's complement), and the \<open>int\<close> length is passed to \<open>strncpy\<close>
  as a \<open>size_t\<close> (64 bits), so a negative length becomes a huge count.
\<close>

definition int_of_size :: "nat \<Rightarrow> int" where
  "int_of_size n = signed_take_bit 31 (int n)"

definition size_of_int :: "int \<Rightarrow> nat" where
  "size_of_int k = nat (k mod 2 ^ 64)"

text \<open>\<open>for (i = 0; i < offset; i++) buf[i] = ' ';\<close> from the current \<open>i\<close> on.\<close>

function fill_to :: "mem \<Rightarrow> int \<Rightarrow> int \<Rightarrow> mem" where
  "fill_to m i offset = (if i < offset then fill_to (poke m i SP) (i + 1) offset else m)"
  by pat_completeness auto
termination
  by (relation "measure (\<lambda>(m, i, offset). nat (offset - i))") auto

declare fill_to.simps [simp del]

text \<open>
  The second loop from the current \<open>i\<close> on, with \<open>lim = offset + len\<close>; it returns the
  memory and the final value of \<open>i\<close>, where the terminator goes.
\<close>

function blank_tail :: "mem \<Rightarrow> int \<Rightarrow> int \<Rightarrow> int \<Rightarrow> mem \<times> int" where
  "blank_tail m i wid lim =
     (if i < wid then
        (if i < lim then
           (if fst (load m i) \<noteq> NL then blank_tail (snd (load m i)) (i + 1) wid lim
            else blank_tail (poke (snd (load m i)) i SP) (i + 1) wid lim)
         else blank_tail (poke m i SP) (i + 1) wid lim)
      else (m, i))"
  by pat_completeness auto
termination
  by (relation "measure (\<lambda>(m, i, wid, lim). nat (wid - i))") auto

declare blank_tail.simps [simp del]

text \<open>
  \<open>sctui_prepare_text(buf, offset, w, text)\<close> on the memory of the caller's \<open>buf\<close>.
  The \<open>int\<close> arguments are integers of HOL; the model is the source where the values
  and the differences and sums the source forms stay within 32 bits. A real call
  whose \<open>strncpy\<close> gets a count near \<open>2 ^ 64\<close> does not return from it; the model
  goes on, so of such a call only its log of stores outside the block is meaningful.
\<close>

definition sctui_prepare_text :: "mem \<Rightarrow> int \<Rightarrow> int \<Rightarrow> string \<Rightarrow> mem" where
  "sctui_prepare_text m offset wid text =
     (let tlen = int_of_size (length text);
          len = (if wid - offset > tlen then tlen else wid - offset);
          m1 = strncpy m offset text (size_of_int len);
          m2 = fill_to m1 0 offset;
          r = blank_tail m2 offset wid (offset + len)
      in poke (fst r) (snd r) NUL)"

text \<open>The C string that starts a block: the bytes before the first NUL.\<close>

definition c_str :: "char list \<Rightarrow> string" where
  "c_str blk = takeWhile (\<lambda>c. c \<noteq> NUL) blk"

section \<open>Runs of calls and concrete inputs\<close>

text \<open>The bytes written so far followed by the bytes still held.\<close>

definition stream :: "world \<Rightarrow> nat \<Rightarrow> string" where
  "stream wd p = concat (tty_out wd) @ held (structs wd p)"

text \<open>A run of appends, one text after the other.\<close>

fun appends :: "platform \<Rightarrow> nat \<Rightarrow> string list \<Rightarrow> world \<Rightarrow> outcome" where
  "appends pf p [] wd = Returns wd"
| "appends pf p (t # ts) wd = and_then (sctui_buf_append pf p t wd) (appends pf p ts)"

text \<open>The calls that change the draw buffer of a session, and runs of them.\<close>

datatype call =
  Append string | Commit | Cursor "32 word" "32 word" | Hide_cursor | Show_cursor
  | Text "32 word" "32 word" string

fun do_call :: "platform \<Rightarrow> nat \<Rightarrow> call \<Rightarrow> world \<Rightarrow> outcome" where
  "do_call pf p (Append t) wd = sctui_buf_append pf p t wd"
| "do_call pf p Commit wd = Returns (sctui_commit p wd)"
| "do_call pf p (Cursor x y) wd = sctui_cursor pf p x y wd"
| "do_call pf p Hide_cursor wd = sctui_hide_cursor pf p wd"
| "do_call pf p Show_cursor wd = sctui_show_cursor pf p wd"
| "do_call pf p (Text x y t) wd = sctui_text pf p x y t wd"

fun do_calls :: "platform \<Rightarrow> nat \<Rightarrow> call list \<Rightarrow> world \<Rightarrow> outcome" where
  "do_calls pf p [] wd = Returns wd"
| "do_calls pf p (c # cs) wd = and_then (do_call pf p c wd) (do_calls pf p cs)"

text \<open>
  The values of glibc on Linux for the macros, a terminal in its usual cooked mode, a
  struct that was never initialised, a process before \<open>sctui_init\<close>, and a window of
  80 columns and 24 rows.
\<close>

definition linux :: platform where
  "linux = \<lparr>BUFSIZ = 8192, CS8 = 0x30, IXON = 0x400, ICRNL = 0x100, ECHO = 0x8,
            ICANON = 0x2, ISIG = 0x1, OPOST = 0x1, VMIN = 6, VTIME = 5\<rparr>"

definition cooked :: termios where
  "cooked = \<lparr>c_iflag = 0x500, c_oflag = 0x5, c_cflag = 0xBF, c_lflag = 0x8A3B,
             c_cc = replicate 32 0\<rparr>"

definition blank :: sctui where
  "blank = \<lparr>cur = cooked, orig = cooked, cursor_x = 0, cursor_y = 0, w = 0, h = 0,
            buf = [], buf_size = 0, buf_used = 0\<rparr>"

definition fresh :: world where
  "fresh = \<lparr>structs = (\<lambda>_. blank), global_sctui = None, tty = cooked,
            tty_out = [], err_out = [], strays = []\<rparr>"

definition vt :: winsize where
  "vt = \<lparr>ws_row = 24, ws_col = 80, ws_xpixel = 0, ws_ypixel = 0\<rparr>"

text \<open>
  A session at address 0 in use: 8186 of the 8192 bytes of its draw buffer are held.
\<close>

definition busy :: sctui where
  "busy = \<lparr>cur = raw_mode linux cooked, orig = cooked, cursor_x = 1, cursor_y = 1,
           w = 80, h = 24, buf = replicate 8192 CHR ''x'', buf_size = 8192,
           buf_used = 8186\<rparr>"

definition live :: world where
  "live = \<lparr>structs = (\<lambda>_. busy), global_sctui = Some 0, tty = raw_mode linux cooked,
           tty_out = [], err_out = [], strays = []\<rparr>"

text \<open>The bytes that the session at \<open>p\<close> holds when a call has returned.\<close>

definition held_after :: "nat \<Rightarrow> outcome \<Rightarrow> string option" where
  "held_after p r =
     (case r of Returns wd \<Rightarrow> Some (held (structs wd p)) | Exits n wd \<Rightarrow> None | Aborts wd \<Rightarrow> None)"

section \<open>Stores into a block\<close>

lemma length_poke: "length (fst (poke m i c)) = length (fst m)"
  by (simp add: poke_def)

lemma length_stpcpy: "length (fst (stpcpy m i cs)) = length (fst m)"
  by (induction cs arbitrary: m i) (simp_all add: length_poke)

lemma take_poke: "int n \<le> i \<Longrightarrow> take n (fst (poke m i c)) = take n (fst m)"
  by (simp add: poke_def)

lemma take_Suc_poke:
  "n < length (fst m) \<Longrightarrow> take (Suc n) (fst (poke m (int n) c)) = take n (fst m) @ [c]"
  by (simp add: poke_def take_Suc_conv_app_nth)

lemma stpcpy_held:
  "n + length cs \<le> length (fst m) \<Longrightarrow>
   take (n + length cs) (fst (stpcpy m (int n) cs)) = take n (fst m) @ cs"
proof (induction cs arbitrary: m n)
  case Nil
  then show ?case by (simp add: take_poke)
next
  case (Cons c cs)
  have lt: "n < length (fst m)" using Cons.prems by simp
  have "Suc n + length cs \<le> length (fst (poke m (int n) c))"
    using Cons.prems by (simp add: length_poke)
  then have "take (Suc n + length cs) (fst (stpcpy (poke m (int n) c) (int (Suc n)) cs))
      = take (Suc n) (fst (poke m (int n) c)) @ cs"
    by (rule Cons.IH)
  then show ?case using lt by (simp add: take_Suc_poke add.commute)
qed

lemma strays_poke_in: "0 \<le> i \<Longrightarrow> i < int (length (fst m)) \<Longrightarrow> snd (poke m i c) = snd m"
  by (simp add: poke_def)

lemma stpcpy_safe:
  "0 \<le> i \<Longrightarrow> i + int (length cs) < int (length (fst m)) \<Longrightarrow> snd (stpcpy m i cs) = snd m"
  by (induction cs arbitrary: m i) (simp_all add: strays_poke_in length_poke)

lemma stpcpy_terminator_stray:
  "0 \<le> i \<Longrightarrow> i + int (length cs) = int (length (fst m)) \<Longrightarrow>
   snd (stpcpy m i cs) = snd m @ [int (length (fst m))]"
proof (induction cs arbitrary: m i)
  case Nil
  then show ?case by (simp add: poke_def)
next
  case (Cons c cs)
  then show ?case by (simp add: strays_poke_in length_poke)
qed

section \<open>Append and commit\<close>

lemma append_cases:
  assumes ok: "sctui_ok pf (structs wd p)" and len: "length text \<le> BUFSIZ pf"
  shows "\<exists>wd'. sctui_buf_append pf p text wd = Returns wd' \<and> sctui_ok pf (structs wd' p) \<and>
     (if buf_size (structs wd p) < buf_used (structs wd p) + length text
      then tty_out wd' = tty_out wd @ [held (structs wd p)] \<and>
           held (structs wd' p) = text \<and> buf_used (structs wd' p) = length text
      else tty_out wd' = tty_out wd \<and>
           held (structs wd' p) = held (structs wd p) @ text \<and>
           buf_used (structs wd' p) = buf_used (structs wd p) + length text)"
proof (cases "buf_size (structs wd p) < buf_used (structs wd p) + length text")
  case True
  have "0 + length text \<le> length (fst (buf (structs wd p), strays (sctui_commit p wd)))"
    using ok len by (simp add: sctui_ok_def)
  from stpcpy_held [OF this] True ok len show ?thesis
    by (simp add: sctui_buf_append_def sctui_commit_def Let_def held_def sctui_ok_def
        length_stpcpy)
next
  case False
  have "buf_used (structs wd p) + length text \<le> length (fst (buf (structs wd p), strays wd))"
    using ok False by (simp add: sctui_ok_def)
  from stpcpy_held [OF this] False ok len show ?thesis
    by (simp add: sctui_buf_append_def Let_def held_def sctui_ok_def length_stpcpy)
qed

lemma append_strays:
  assumes ok: "sctui_ok pf (structs wd p)" and len: "length text \<le> BUFSIZ pf"
  shows "\<exists>wd'. sctui_buf_append pf p text wd = Returns wd' \<and>
     strays wd' = (if buf_used (structs wd' p) = buf_size (structs wd' p)
                   then strays wd @ [int (BUFSIZ pf)] else strays wd)"
proof (cases "buf_size (structs wd p) < buf_used (structs wd p) + length text")
  case True
  show ?thesis
  proof (cases "length text = BUFSIZ pf")
    case True
    have "snd (stpcpy (buf (structs wd p), strays wd) 0 text)
        = snd (buf (structs wd p), strays wd) @ [int (length (fst (buf (structs wd p), strays wd)))]"
      by (rule stpcpy_terminator_stray) (use ok True in \<open>simp_all add: sctui_ok_def\<close>)
    with True ok show ?thesis
      by (simp add: sctui_buf_append_def sctui_commit_def Let_def sctui_ok_def)
  next
    case False
    have "snd (stpcpy (buf (structs wd p), strays wd) 0 text) = snd (buf (structs wd p), strays wd)"
      by (rule stpcpy_safe) (use ok len False in \<open>simp_all add: sctui_ok_def\<close>)
    with False True ok len show ?thesis
      by (simp add: sctui_buf_append_def sctui_commit_def Let_def sctui_ok_def)
  qed
next
  case False
  note noflush = False
  show ?thesis
  proof (cases "buf_used (structs wd p) + length text = BUFSIZ pf")
    case True
    have "snd (stpcpy (buf (structs wd p), strays wd) (int (buf_used (structs wd p))) text)
        = snd (buf (structs wd p), strays wd) @ [int (length (fst (buf (structs wd p), strays wd)))]"
      by (rule stpcpy_terminator_stray) (use ok True in \<open>simp_all add: sctui_ok_def\<close>)
    with True ok len noflush show ?thesis
      by (simp add: sctui_buf_append_def Let_def sctui_ok_def)
  next
    case False
    have "snd (stpcpy (buf (structs wd p), strays wd) (int (buf_used (structs wd p))) text)
        = snd (buf (structs wd p), strays wd)"
      by (rule stpcpy_safe) (use ok len False noflush in \<open>simp_all add: sctui_ok_def\<close>)
    with False ok len noflush show ?thesis
      by (simp add: sctui_buf_append_def Let_def sctui_ok_def)
  qed
qed

lemma commit_ok: "sctui_ok pf (structs wd p) \<Longrightarrow> sctui_ok pf (structs (sctui_commit p wd) p)"
  by (simp add: sctui_commit_def sctui_ok_def Let_def)

lemma commit_out:
  "tty_out (sctui_commit p wd) = tty_out wd @ [held (structs wd p)] \<and>
   buf_used (structs (sctui_commit p wd) p) = 0"
  by (simp add: sctui_commit_def held_def Let_def)

lemma append_stream:
  assumes ok: "sctui_ok pf (structs wd p)" and len: "length text \<le> BUFSIZ pf"
  shows "\<exists>wd'. sctui_buf_append pf p text wd = Returns wd' \<and> sctui_ok pf (structs wd' p) \<and>
     stream wd' p = stream wd p @ text"
  using append_cases [OF ok len] by (auto simp: stream_def split: if_splits)

lemma appends_stream:
  "sctui_ok pf (structs wd p) \<Longrightarrow> \<forall>t \<in> set ts. length t \<le> BUFSIZ pf \<Longrightarrow>
   \<exists>wd'. appends pf p ts wd = Returns wd' \<and> sctui_ok pf (structs wd' p) \<and>
     stream wd' p = stream wd p @ concat ts"
proof (induction ts arbitrary: wd)
  case Nil
  then show ?case by simp
next
  case (Cons t ts)
  from Cons.prems obtain wd1 where
    a: "sctui_buf_append pf p t wd = Returns wd1" and ok1: "sctui_ok pf (structs wd1 p)"
    and s1: "stream wd1 p = stream wd p @ t"
    using append_stream [of pf wd p t] by auto
  from Cons.IH [OF ok1] Cons.prems obtain wd' where
    "appends pf p ts wd1 = Returns wd'" "sctui_ok pf (structs wd' p)"
    "stream wd' p = stream wd1 p @ concat ts"
    by auto
  with a s1 show ?case by (simp add: and_then_def)
qed

lemma appends_no_flush:
  "sctui_ok pf (structs wd p) \<Longrightarrow>
   buf_used (structs wd p) + length (concat ts) \<le> BUFSIZ pf \<Longrightarrow>
   \<exists>wd'. appends pf p ts wd = Returns wd' \<and> sctui_ok pf (structs wd' p) \<and>
     tty_out wd' = tty_out wd \<and> held (structs wd' p) = held (structs wd p) @ concat ts"
proof (induction ts arbitrary: wd)
  case Nil
  then show ?case by simp
next
  case (Cons t ts)
  have ok: "sctui_ok pf (structs wd p)" and fits: "buf_used (structs wd p) + length t \<le> BUFSIZ pf"
    and tl: "length t \<le> BUFSIZ pf"
    using Cons.prems by simp_all
  from append_cases [OF ok tl] fits ok obtain wd1 where
    a: "sctui_buf_append pf p t wd = Returns wd1" and ok1: "sctui_ok pf (structs wd1 p)"
    and o1: "tty_out wd1 = tty_out wd" and h1: "held (structs wd1 p) = held (structs wd p) @ t"
    and u1: "buf_used (structs wd1 p) = buf_used (structs wd p) + length t"
    by (auto simp: sctui_ok_def split: if_splits)
  have "buf_used (structs wd1 p) + length (concat ts) \<le> BUFSIZ pf"
    using Cons.prems u1 by simp
  from Cons.IH [OF ok1 this] obtain wd' where
    "appends pf p ts wd1 = Returns wd'" "sctui_ok pf (structs wd' p)"
    "tty_out wd' = tty_out wd1" "held (structs wd' p) = held (structs wd1 p) @ concat ts"
    by auto
  with a o1 h1 show ?case by (simp add: and_then_def)
qed

section \<open>Decimal output and cursor moves\<close>

text \<open>The text that \<open>%u\<close> prints is the decimal numeral of the value.\<close>

lemma digit_code: "d < 10 \<Longrightarrow> of_char (digit d) = 48 + d"
proof -
  assume "d < 10"
  then have "d \<in> {0, 1, 2, 3, 4, 5, 6, 7, 8, 9}" by auto
  then show ?thesis by (auto simp: digit_def)
qed

lemma decimal_value_dec: "decimal_value (dec n) = n"
proof (induction n rule: dec.induct)
  case (1 n)
  show ?case
  proof (cases "n < 10")
    case True
    then show ?thesis by (simp add: dec.simps [of n] decimal_value_def digit_code)
  next
    case False
    have "n mod 10 < 10" by simp
    with False "1.IH" show ?thesis
      by (simp add: dec.simps [of n] decimal_value_def digit_code)
  qed
qed

lemma dec_length: "n < 10 ^ k \<Longrightarrow> 0 < k \<Longrightarrow> length (dec n) \<le> k"
proof (induction n arbitrary: k rule: dec.induct)
  case (1 n)
  show ?case
  proof (cases "n < 10")
    case True
    with "1.prems" show ?thesis by (simp add: dec.simps [of n])
  next
    case False
    obtain j where k: "k = Suc j" using "1.prems" by (cases k) auto
    have "0 < j"
    proof (rule ccontr)
      assume "\<not> 0 < j"
      with k "1.prems" False show False by simp
    qed
    moreover have "n div 10 < 10 ^ j" using "1.prems" k by (simp add: less_mult_imp_div_less)
    ultimately have "length (dec (n div 10)) \<le> j" using "1.IH" [OF False] by simp
    with False k show ?thesis by (simp add: dec.simps [of n])
  qed
qed

lemma dec_word_length: "length (dec (unat (v :: 32 word))) \<le> 10"
proof -
  have "unat v < 2 ^ 32" using unsigned_less [of v] by simp
  then have "unat v < 10 ^ 10" by simp
  then show ?thesis by (rule dec_length) simp
qed

lemma length_sprintf_cursor: "length (sprintf_cursor y x) \<le> 24"
  using dec_word_length [of x] dec_word_length [of y] by (simp add: sprintf_cursor_def)

lemma cursor_same:
  "cursor_x (structs wd p) = x \<Longrightarrow> cursor_y (structs wd p) = y \<Longrightarrow>
   sctui_cursor pf p x y wd = Returns wd"
  by (simp add: sctui_cursor_def)

lemma cursor_moves:
  assumes ok: "sctui_ok pf (structs wd p)" and big: "24 \<le> BUFSIZ pf"
    and diff: "\<not> (cursor_x (structs wd p) = x \<and> cursor_y (structs wd p) = y)"
  shows "\<exists>wd'. sctui_cursor pf p x y wd = Returns wd' \<and> sctui_ok pf (structs wd' p) \<and>
     cursor_x (structs wd' p) = x \<and> cursor_y (structs wd' p) = y \<and>
     (if buf_size (structs wd p) < buf_used (structs wd p) + length (sprintf_cursor y x)
      then tty_out wd' = tty_out wd @ [held (structs wd p)] \<and>
           held (structs wd' p) = sprintf_cursor y x
      else tty_out wd' = tty_out wd \<and>
           held (structs wd' p) = held (structs wd p) @ sprintf_cursor y x)"
proof -
  have len: "length (sprintf_cursor y x) \<le> BUFSIZ pf"
    using length_sprintf_cursor [of y x] big by simp
  from append_cases [OF ok len] obtain wd1 where
    a: "sctui_buf_append pf p (sprintf_cursor y x) wd = Returns wd1"
    and ok1: "sctui_ok pf (structs wd1 p)"
    and c: "if buf_size (structs wd p) < buf_used (structs wd p) + length (sprintf_cursor y x)
      then tty_out wd1 = tty_out wd @ [held (structs wd p)] \<and>
           held (structs wd1 p) = sprintf_cursor y x \<and>
           buf_used (structs wd1 p) = length (sprintf_cursor y x)
      else tty_out wd1 = tty_out wd \<and>
           held (structs wd1 p) = held (structs wd p) @ sprintf_cursor y x \<and>
           buf_used (structs wd1 p) = buf_used (structs wd p) + length (sprintf_cursor y x)"
    by blast
  let ?wd' = "wd1\<lparr>structs := (structs wd1)
      (p := (structs wd1 p)\<lparr>cursor_x := x, cursor_y := y\<rparr>)\<rparr>"
  have r: "sctui_cursor pf p x y wd = Returns ?wd'"
    using diff a by (auto simp: sctui_cursor_def and_then_def)
  have h: "held (structs ?wd' p) = held (structs wd1 p)" and o: "tty_out ?wd' = tty_out wd1"
    and k: "sctui_ok pf (structs ?wd' p)"
    using ok1 by (simp_all add: held_def sctui_ok_def)
  show ?thesis
  proof (cases "buf_size (structs wd p) < buf_used (structs wd p) + length (sprintf_cursor y x)")
    case True
    with c r h o k show ?thesis by simp
  next
    case False
    with c r h o k show ?thesis by simp
  qed
qed

text \<open>A run of calls that returns leaves the session in shape.\<close>

lemma append_keeps_ok:
  assumes ok: "sctui_ok pf (structs wd p)" and r: "sctui_buf_append pf p text wd = Returns wd'"
  shows "sctui_ok pf (structs wd' p)"
proof (cases "length text \<le> BUFSIZ pf")
  case True
  from append_cases [OF ok True] r show ?thesis by auto
next
  case False
  with r show ?thesis by (simp add: sctui_buf_append_def)
qed

lemma cursor_keeps_ok:
  assumes ok: "sctui_ok pf (structs wd p)" and r: "sctui_cursor pf p x y wd = Returns wd'"
  shows "sctui_ok pf (structs wd' p)"
proof (cases "cursor_x (structs wd p) = x \<and> cursor_y (structs wd p) = y")
  case True
  with r ok show ?thesis by (simp add: sctui_cursor_def)
next
  case False
  with r obtain wd1 where a: "sctui_buf_append pf p (sprintf_cursor y x) wd = Returns wd1"
    and w: "wd' = wd1\<lparr>structs := (structs wd1)
      (p := (structs wd1 p)\<lparr>cursor_x := x, cursor_y := y\<rparr>)\<rparr>"
    by (auto simp: sctui_cursor_def and_then_def split: outcome.splits)
  from append_keeps_ok [OF ok a] w show ?thesis by (simp add: sctui_ok_def)
qed

lemma text_keeps_ok:
  assumes ok: "sctui_ok pf (structs wd p)" and r: "sctui_text pf p x y text wd = Returns wd'"
  shows "sctui_ok pf (structs wd' p)"
proof -
  from r obtain wd1 wd2 where
    a: "sctui_cursor pf p x y wd = Returns wd1"
    and b: "sctui_buf_append pf p text wd1 = Returns wd2"
    and c: "sctui_cursor pf p (cursor_x (structs wd p)) (cursor_y (structs wd p)) wd2 = Returns wd'"
    by (auto simp: sctui_text_def Let_def and_then_def split: outcome.splits)
  from cursor_keeps_ok [OF append_keeps_ok [OF cursor_keeps_ok [OF ok a] b] c] show ?thesis .
qed

lemma do_call_keeps_ok:
  "sctui_ok pf (structs wd p) \<Longrightarrow> do_call pf p c wd = Returns wd' \<Longrightarrow>
   sctui_ok pf (structs wd' p)"
proof (cases c)
  case (Append t)
  assume "sctui_ok pf (structs wd p)" "do_call pf p c wd = Returns wd'"
  with Append show ?thesis by (auto intro: append_keeps_ok)
next
  case Commit
  assume "sctui_ok pf (structs wd p)" "do_call pf p c wd = Returns wd'"
  with Commit show ?thesis by (auto intro: commit_ok)
next
  case (Cursor x y)
  assume "sctui_ok pf (structs wd p)" "do_call pf p c wd = Returns wd'"
  with Cursor show ?thesis by (auto intro: cursor_keeps_ok)
next
  case Hide_cursor
  assume "sctui_ok pf (structs wd p)" "do_call pf p c wd = Returns wd'"
  with Hide_cursor show ?thesis by (auto simp: sctui_hide_cursor_def intro: append_keeps_ok)
next
  case Show_cursor
  assume "sctui_ok pf (structs wd p)" "do_call pf p c wd = Returns wd'"
  with Show_cursor show ?thesis by (auto simp: sctui_show_cursor_def intro: append_keeps_ok)
next
  case (Text x y t)
  assume "sctui_ok pf (structs wd p)" "do_call pf p c wd = Returns wd'"
  with Text show ?thesis by (auto intro: text_keeps_ok)
qed

lemma do_calls_keeps_ok:
  "sctui_ok pf (structs wd p) \<Longrightarrow> do_calls pf p cs wd = Returns wd' \<Longrightarrow>
   sctui_ok pf (structs wd' p)"
proof (induction cs arbitrary: wd)
  case Nil
  then show ?case by simp
next
  case (Cons c cs)
  from Cons.prems(2) obtain wd1 where
    a: "do_call pf p c wd = Returns wd1" and b: "do_calls pf p cs wd1 = Returns wd'"
    by (auto simp: and_then_def split: outcome.splits)
  from Cons.IH [OF do_call_keeps_ok [OF Cons.prems(1) a] b] show ?case .
qed

section \<open>The claims about the draw buffer\<close>

text \<open>
  Claim C1. The draw buffer has the fixed capacity \<open>BUFSIZ\<close> and never holds more:
  after any run of appends, commits, cursor moves and text calls that returns,
  \<open>buf_used\<close> is at most the capacity. An append of a text no longer than the
  capacity returns. When the text does not fit behind the bytes held, the append
  first commits, which writes exactly the bytes held before and nothing of the new
  text, and then the buffer holds the whole text from index 0. When it fits, nothing
  is written and the text follows the bytes held.
\<close>

theorem append_flushes_before_overflow:
  assumes "sctui_ok pf (structs wd p)" and "length text \<le> BUFSIZ pf"
  shows "(do_calls pf p cs wd = Returns wd2 \<longrightarrow>
       buf_size (structs wd2 p) = BUFSIZ pf \<and> buf_used (structs wd2 p) \<le> BUFSIZ pf) \<and>
    (\<exists>wd'. sctui_buf_append pf p text wd = Returns wd' \<and>
       sctui_ok pf (structs wd' p) \<and> buf_used (structs wd' p) \<le> BUFSIZ pf \<and>
       (if buf_size (structs wd p) < buf_used (structs wd p) + length text
        then tty_out wd' = tty_out wd @ [held (structs wd p)] \<and>
             held (structs wd' p) = text \<and> buf_used (structs wd' p) = length text
        else tty_out wd' = tty_out wd \<and>
             held (structs wd' p) = held (structs wd p) @ text \<and>
             buf_used (structs wd' p) = buf_used (structs wd p) + length text))"
proof -
  from append_cases [OF assms] obtain wd' where
    r: "sctui_buf_append pf p text wd = Returns wd'" and k: "sctui_ok pf (structs wd' p)"
    and c: "if buf_size (structs wd p) < buf_used (structs wd p) + length text
        then tty_out wd' = tty_out wd @ [held (structs wd p)] \<and>
             held (structs wd' p) = text \<and> buf_used (structs wd' p) = length text
        else tty_out wd' = tty_out wd \<and>
             held (structs wd' p) = held (structs wd p) @ text \<and>
             buf_used (structs wd' p) = buf_used (structs wd p) + length text"
    by blast
  have u: "buf_used (structs wd' p) \<le> BUFSIZ pf" using k by (simp add: sctui_ok_def)
  have i: "buf_size (structs wd2 p) = BUFSIZ pf \<and> buf_used (structs wd2 p) \<le> BUFSIZ pf"
    if "do_calls pf p cs wd = Returns wd2"
    using do_calls_keeps_ok [OF assms(1) that] by (simp add: sctui_ok_def)
  from r k c u i show ?thesis by blast
qed

theorem append_flushes_before_overflow_witness:
  "sctui_ok linux (structs live 0) \<and> length ''abcdefgh'' \<le> BUFSIZ linux \<and>
   (\<exists>wd'. sctui_buf_append linux 0 ''abcdefgh'' live = Returns wd' \<and>
      tty_out wd' = [replicate 8186 CHR ''x''] \<and> held (structs wd' 0) = ''abcdefgh'' \<and>
      buf_used (structs wd' 0) = 8)"
proof -
  have ok: "sctui_ok linux (structs live 0)"
    by (simp add: live_def busy_def linux_def sctui_ok_def)
  have len: "length ''abcdefgh'' \<le> BUFSIZ linux"
    by (simp add: linux_def)
  have "held (structs live 0) = replicate 8186 CHR ''x''" "tty_out live = []"
    "buf_size (structs live 0) < buf_used (structs live 0) + length ''abcdefgh''"
    by (simp_all add: live_def busy_def held_def)
  with append_flushes_before_overflow [OF ok len, of "[]" live] ok len show ?thesis
    by auto
qed

text \<open>
  Claim C4. A commit makes one write of exactly the bytes held, as many as
  \<open>buf_used\<close> says, and leaves \<open>buf_used = 0\<close>. A run of appends followed by a commit
  has put on the output, behind what was written or held before the run, exactly the
  concatenation of the appended texts; when the run fits the buffer, the commit is
  the only write and carries all of it.
\<close>

theorem commit_writes_held_bytes:
  assumes "sctui_ok pf (structs wd p)" and "\<forall>t \<in> set ts. length t \<le> BUFSIZ pf"
  shows "tty_out (sctui_commit p wd) = tty_out wd @ [held (structs wd p)] \<and>
    length (held (structs wd p)) = buf_used (structs wd p) \<and>
    buf_used (structs (sctui_commit p wd) p) = 0 \<and>
    (\<exists>wd'. appends pf p ts wd = Returns wd' \<and>
       concat (tty_out (sctui_commit p wd'))
         = concat (tty_out wd) @ held (structs wd p) @ concat ts \<and>
       buf_used (structs (sctui_commit p wd') p) = 0 \<and>
       (buf_used (structs wd p) + length (concat ts) \<le> BUFSIZ pf \<longrightarrow>
          tty_out (sctui_commit p wd') = tty_out wd @ [held (structs wd p) @ concat ts]))"
proof -
  have l: "length (held (structs wd p)) = buf_used (structs wd p)"
    using assms(1) by (simp add: held_def sctui_ok_def)
  from appends_stream [OF assms] obtain wd' where
    r: "appends pf p ts wd = Returns wd'" and s: "stream wd' p = stream wd p @ concat ts"
    by blast
  have c: "concat (tty_out (sctui_commit p wd'))
      = concat (tty_out wd) @ held (structs wd p) @ concat ts"
    using s commit_out [of p wd'] by (simp add: stream_def)
  have f: "tty_out (sctui_commit p wd') = tty_out wd @ [held (structs wd p) @ concat ts]"
    if "buf_used (structs wd p) + length (concat ts) \<le> BUFSIZ pf"
    using appends_no_flush [OF assms(1) that] r commit_out [of p wd'] by auto
  from l r c f commit_out [of p wd] commit_out [of p wd'] show ?thesis by blast
qed

theorem commit_writes_held_bytes_witness:
  "sctui_ok linux (structs live 0) \<and>
   length ''ab'' \<le> BUFSIZ linux \<and> length ''cde'' \<le> BUFSIZ linux \<and>
   tty_out (sctui_commit 0 live) = [replicate 8186 CHR ''x''] \<and>
   buf_used (structs (sctui_commit 0 live) 0) = 0 \<and>
   (\<exists>wd'. appends linux 0 [''ab'', ''cde''] live = Returns wd' \<and>
      tty_out (sctui_commit 0 wd') = [replicate 8186 CHR ''x'' @ ''abcde''])"
proof -
  have ok: "sctui_ok linux (structs live 0)"
    by (simp add: live_def busy_def linux_def sctui_ok_def)
  have len: "\<forall>t \<in> set [''ab'', ''cde'']. length t \<le> BUFSIZ linux"
    by (simp add: linux_def)
  have "held (structs live 0) = replicate 8186 CHR ''x''" "tty_out live = []"
    "buf_used (structs live 0) + length (concat [''ab'', ''cde'']) \<le> BUFSIZ linux"
    by (simp_all add: live_def busy_def held_def linux_def)
  with commit_writes_held_bytes [OF ok len] ok len show ?thesis
    by auto
qed

text \<open>
  Claim C10. The claim holds that every byte an append stores, the terminator
  included, lies below the capacity. The append of the six bytes of the hide-cursor
  sequence to a buffer that holds 8186 of its 8192 bytes triggers no flush, and
  \<open>stpcpy\<close> stores the terminator at index 8192, the first byte behind the block.
\<close>

theorem append_terminator_behind_block:
  "sctui_ok linux (structs live 0) \<and>
   buf_used (structs live 0) + length ESC_HIDE_CURSOR = buf_size (structs live 0) \<and>
   (\<exists>wd'. sctui_hide_cursor linux 0 live = Returns wd' \<and> tty_out wd' = tty_out live \<and>
      strays live = [] \<and> strays wd' = [8192])"
proof -
  have ok: "sctui_ok linux (structs live 0)"
    by (simp add: live_def busy_def linux_def sctui_ok_def)
  have len: "length ESC_HIDE_CURSOR \<le> BUFSIZ linux"
    by (simp add: ESC_HIDE_CURSOR_def linux_def)
  have full: "buf_used (structs live 0) + length ESC_HIDE_CURSOR = buf_size (structs live 0)"
    by (simp add: live_def busy_def ESC_HIDE_CURSOR_def)
  from append_cases [OF ok len] append_strays [OF ok len] full obtain wd' where
    "sctui_buf_append linux 0 ESC_HIDE_CURSOR live = Returns wd'"
    "tty_out wd' = tty_out live"
    "strays wd' = strays live @ [int (BUFSIZ linux)]"
    using ok by (auto simp: sctui_ok_def split: if_splits)
  then show ?thesis using ok full
    by (simp add: sctui_hide_cursor_def live_def linux_def)
qed

section \<open>The claims about cursor moves\<close>

lemma cursor_twice:
  assumes ok: "sctui_ok pf (structs wd p)" and big: "24 \<le> BUFSIZ pf"
  shows "and_then (sctui_cursor pf p x y wd) (sctui_cursor pf p x y) = sctui_cursor pf p x y wd"
proof (cases "cursor_x (structs wd p) = x \<and> cursor_y (structs wd p) = y")
  case True
  then show ?thesis by (simp add: sctui_cursor_def and_then_def)
next
  case False
  from cursor_moves [OF ok big False] obtain wd' where
    "sctui_cursor pf p x y wd = Returns wd'" "cursor_x (structs wd' p) = x"
    "cursor_y (structs wd' p) = y"
    by blast
  then show ?thesis by (simp add: and_then_def cursor_same)
qed

text \<open>
  Claim C3. In a session as \<open>sctui_init\<close> leaves it, \<open>sctui_cursor\<close> with the recorded
  position returns with nothing changed. With any other position it appends to the
  draw buffer exactly ESC [ row ; column H, the row \<open>y\<close> first, both printed by \<open>%u\<close>
  (behind the bytes held, or alone after the flush when they do not fit), and records
  \<open>(x, y)\<close>. Two calls with the same coordinates do what one call does.
\<close>

theorem cursor_move_dedup:
  assumes "sctui_ok pf (structs wd p)" and "24 \<le> BUFSIZ pf"
  shows "(if cursor_x (structs wd p) = x \<and> cursor_y (structs wd p) = y
     then sctui_cursor pf p x y wd = Returns wd
     else \<exists>wd'. sctui_cursor pf p x y wd = Returns wd' \<and>
        cursor_x (structs wd' p) = x \<and> cursor_y (structs wd' p) = y \<and>
        stream wd' p = stream wd p @ ESC # ''['' @ dec (unat y) @ '';'' @ dec (unat x) @ ''H'' \<and>
        (if buf_size (structs wd p)
              < buf_used (structs wd p) + length (ESC # ''['' @ dec (unat y) @ '';'' @ dec (unat x) @ ''H'')
         then tty_out wd' = tty_out wd @ [held (structs wd p)] \<and>
              held (structs wd' p) = ESC # ''['' @ dec (unat y) @ '';'' @ dec (unat x) @ ''H''
         else tty_out wd' = tty_out wd \<and>
              held (structs wd' p)
                = held (structs wd p) @ ESC # ''['' @ dec (unat y) @ '';'' @ dec (unat x) @ ''H'')) \<and>
    and_then (sctui_cursor pf p x y wd) (sctui_cursor pf p x y) = sctui_cursor pf p x y wd"
proof (cases "cursor_x (structs wd p) = x \<and> cursor_y (structs wd p) = y")
  case True
  with cursor_twice [OF assms, of x y] show ?thesis by (simp add: cursor_same)
next
  case False
  have e: "ESC # ''['' @ dec (unat y) @ '';'' @ dec (unat x) @ ''H'' = sprintf_cursor y x"
    by (simp add: sprintf_cursor_def)
  from cursor_moves [OF assms False] obtain wd' where
    r: "sctui_cursor pf p x y wd = Returns wd'"
    and c: "cursor_x (structs wd' p) = x" "cursor_y (structs wd' p) = y"
    and f: "if buf_size (structs wd p) < buf_used (structs wd p) + length (sprintf_cursor y x)
      then tty_out wd' = tty_out wd @ [held (structs wd p)] \<and>
           held (structs wd' p) = sprintf_cursor y x
      else tty_out wd' = tty_out wd \<and>
           held (structs wd' p) = held (structs wd p) @ sprintf_cursor y x"
    by blast
  have s: "stream wd' p = stream wd p @ sprintf_cursor y x"
    using f by (simp add: stream_def split: if_splits)
  from False r c f s cursor_twice [OF assms, of x y] show ?thesis
    unfolding e by auto
qed

lemma dec_one: "dec (Suc 0) = ''1''"
  by (simp add: dec.simps [of "Suc 0"] digit_def)

lemma dec_digits: "dec 3 = ''3''" "dec 5 = ''5''" "dec 6 = ''6''" "dec 10 = ''10''"
  by (simp_all add: dec.simps [of 3] dec.simps [of 5] dec.simps [of 6]
      dec.simps [of 10] digit_def dec_one)

theorem cursor_move_dedup_witness:
  "sctui_ok linux (structs live 0) \<and> 24 \<le> BUFSIZ linux \<and>
   sctui_cursor linux 0 1 1 live = Returns live \<and>
   (\<exists>wd'. sctui_cursor linux 0 10 3 live = Returns wd' \<and>
      cursor_x (structs wd' 0) = 10 \<and> cursor_y (structs wd' 0) = 3 \<and>
      tty_out wd' = [replicate 8186 CHR ''x''] \<and> held (structs wd' 0) = ESC # ''[3;10H'')"
proof -
  have ok: "sctui_ok linux (structs live 0)"
    by (simp add: live_def busy_def linux_def sctui_ok_def)
  have big: "24 \<le> BUFSIZ linux"
    by (simp add: linux_def)
  have here: "cursor_x (structs live 0) = 1 \<and> cursor_y (structs live 0) = 1"
    by (simp add: live_def busy_def)
  have facts: "held (structs live 0) = replicate 8186 CHR ''x''" "tty_out live = []"
    "buf_size (structs live 0) = 8192" "buf_used (structs live 0) = 8186"
    by (simp_all add: live_def busy_def held_def)
  have same: "sctui_cursor linux 0 1 1 live = Returns live"
    using cursor_move_dedup [OF ok big, of 1 1] here by simp
  have "\<exists>wd'. sctui_cursor linux 0 10 3 live = Returns wd' \<and>
      cursor_x (structs wd' 0) = 10 \<and> cursor_y (structs wd' 0) = 3 \<and>
      tty_out wd' = [replicate 8186 CHR ''x''] \<and> held (structs wd' 0) = ESC # ''[3;10H''"
    using cursor_move_dedup [OF ok big, of 10 3] here facts by (auto simp: dec_digits)
  with ok big same show ?thesis by blast
qed

section \<open>The claims about the life of a session\<close>

lemma init_returns:
  assumes "global_sctui wd = None" and "ws_col ws \<noteq> 0"
  shows "\<exists>wd0. sctui_init pf p (Some ws) True wd = Returns wd0 \<and>
     sctui_ok pf (structs wd0 p) \<and> global_sctui wd0 = Some p \<and>
     cursor_x (structs wd0 p) = 1 \<and> cursor_y (structs wd0 p) = 1 \<and>
     buf_used (structs wd0 p) = 0 \<and> held (structs wd0 p) = [] \<and>
     tty_out wd0 = tty_out wd @ [ESC_OPEN_ALT_SCREEN, ESC_CLEAR_SCREEN] \<and>
     strays wd0 = strays wd"
  using assms
  by (simp add: sctui_init_def sctui_get_win_def and_then_def Let_def sctui_ok_def held_def
      ESC_OPEN_ALT_SCREEN_def)

lemma init_when_active:
  "global_sctui wd = Some g \<Longrightarrow>
   sctui_init pf p ioctl calloc_ok wd
     = Exits 1 (wd\<lparr>err_out := err_out wd @ [''[sctui]: initialized'' @ [NL]]\<rparr>)"
  by (simp add: sctui_init_def sctui_die_def)

text \<open>
  Claim C8. While a session is active, that is while \<open>global_sctui\<close> is not null,
  \<open>sctui_init\<close> on any struct ends the process with exit status 1 after a message on
  standard error: the structs, the terminal attributes, the output and
  \<open>global_sctui\<close> are as they were. A first \<open>sctui_init\<close> that returns leaves
  \<open>global_sctui\<close> set, so the next one fails in this way.
\<close>

theorem second_init_is_fatal:
  assumes "global_sctui wd = Some g"
  shows "sctui_init pf p ioctl calloc_ok wd
      = Exits 1 (wd\<lparr>err_out := err_out wd @ [''[sctui]: initialized'' @ [NL]]\<rparr>)"
  using assms by (rule init_when_active)

theorem second_init_is_fatal_witness:
  "\<exists>wd0. sctui_init linux 0 (Some vt) True fresh = Returns wd0 \<and> global_sctui wd0 = Some 0 \<and>
     sctui_init linux 1 (Some vt) True wd0
       = Exits 1 (wd0\<lparr>err_out := err_out wd0 @ [''[sctui]: initialized'' @ [NL]]\<rparr>) \<and>
     sctui_init linux 0 None False wd0
       = Exits 1 (wd0\<lparr>err_out := err_out wd0 @ [''[sctui]: initialized'' @ [NL]]\<rparr>)"
proof -
  have "global_sctui fresh = None" "ws_col vt \<noteq> 0"
    by (simp_all add: fresh_def vt_def)
  from init_returns [OF this, of linux 0] obtain wd0 where
    r: "sctui_init linux 0 (Some vt) True fresh = Returns wd0" and g: "global_sctui wd0 = Some 0"
    by blast
  from r g second_init_is_fatal [OF g, of linux 1 "Some vt" True]
    second_init_is_fatal [OF g, of linux 0 None False]
  show ?thesis by blast
qed

lemma get_win_cases:
  assumes "global_sctui wd = Some g"
  shows "sctui_get_win p ioctl wd =
    (case ioctl of
       None \<Rightarrow>
         Exits 1 (wd\<lparr>tty_out := tty_out wd @ [ESC_CLOSE_ALT_SCREEN], tty := orig (structs wd g),
                    err_out := err_out wd @ [''[sctui]: failed to get winsize'' @ [NL]]\<rparr>)
     | Some ws \<Rightarrow>
         if ws_col ws = 0
         then Exits 1 (wd\<lparr>tty_out := tty_out wd @ [ESC_CLOSE_ALT_SCREEN],
                    tty := orig (structs wd g),
                    err_out := err_out wd @ [''[sctui]: failed to get winsize'' @ [NL]]\<rparr>)
         else Returns (wd\<lparr>structs := (structs wd)
                (p := (structs wd p)
                   \<lparr>w := ucast (ws_col ws),
                    h := (if ws_row ws = 0 then 24 else ucast (ws_row ws))\<rparr>)\<rparr>))"
  using assms
  by (simp add: sctui_get_win_def sctui_fini_def sctui_die_def and_then_def
      ESC_CLOSE_ALT_SCREEN_def split: option.splits)

text \<open>
  Claim C6, as amended. In an active session \<open>sctui_get_win\<close> ends the process with
  exit status 1, after leaving the alternate screen and restoring the original
  terminal attributes, when the query fails and also when it succeeds and reports
  zero columns. Otherwise it returns with \<open>w\<close> the reported number of columns and
  \<open>h\<close> the reported number of rows, or 24 when zero rows are reported. The width is
  never replaced by 80.
\<close>

theorem get_win_zero_columns_is_failure:
  assumes "global_sctui wd = Some g"
  shows "sctui_get_win p ioctl wd =
    (case ioctl of
       None \<Rightarrow>
         Exits 1 (wd\<lparr>tty_out := tty_out wd @ [ESC_CLOSE_ALT_SCREEN], tty := orig (structs wd g),
                    err_out := err_out wd @ [''[sctui]: failed to get winsize'' @ [NL]]\<rparr>)
     | Some ws \<Rightarrow>
         if ws_col ws = 0
         then Exits 1 (wd\<lparr>tty_out := tty_out wd @ [ESC_CLOSE_ALT_SCREEN],
                    tty := orig (structs wd g),
                    err_out := err_out wd @ [''[sctui]: failed to get winsize'' @ [NL]]\<rparr>)
         else Returns (wd\<lparr>structs := (structs wd)
                (p := (structs wd p)
                   \<lparr>w := ucast (ws_col ws),
                    h := (if ws_row ws = 0 then 24 else ucast (ws_row ws))\<rparr>)\<rparr>))"
  using assms by (rule get_win_cases)

theorem get_win_zero_columns_is_failure_witness:
  "global_sctui live = Some 0 \<and>
   sctui_get_win 0 None live
     = Exits 1 (live\<lparr>tty_out := [ESC_CLOSE_ALT_SCREEN], tty := cooked,
                  err_out := [''[sctui]: failed to get winsize'' @ [NL]]\<rparr>) \<and>
   sctui_get_win 0 (Some (vt\<lparr>ws_col := 0\<rparr>)) live
     = Exits 1 (live\<lparr>tty_out := [ESC_CLOSE_ALT_SCREEN], tty := cooked,
                  err_out := [''[sctui]: failed to get winsize'' @ [NL]]\<rparr>) \<and>
   sctui_get_win 0 (Some (vt\<lparr>ws_row := 0, ws_col := 132\<rparr>)) live
     = Returns (live\<lparr>structs := (structs live)(0 := busy\<lparr>w := 132, h := 24\<rparr>)\<rparr>)"
proof -
  have g: "global_sctui live = Some 0"
    by (simp add: live_def)
  have facts: "tty_out live = []" "err_out live = []" "orig (structs live 0) = cooked"
    "structs live 0 = busy"
    by (simp_all add: live_def busy_def)
  from g facts
    get_win_zero_columns_is_failure [OF g, of 0 None]
    get_win_zero_columns_is_failure [OF g, of 0 "Some (vt\<lparr>ws_col := 0\<rparr>)"]
    get_win_zero_columns_is_failure [OF g, of 0 "Some (vt\<lparr>ws_row := 0, ws_col := 132\<rparr>)"]
  show ?thesis by (simp add: vt_def)
qed

text \<open>
  The claim as stated fails: a query that succeeds and reports zero columns (and 24
  rows) does not yield the fallback of 80 columns; the process exits.
\<close>

theorem get_win_zero_columns_counterexample:
  "sctui_get_win 0 (Some \<lparr>ws_row = 24, ws_col = 0, ws_xpixel = 0, ws_ypixel = 0\<rparr>) live
     = Exits 1 (live\<lparr>tty_out := [ESC_CLOSE_ALT_SCREEN], tty := cooked,
                  err_out := [''[sctui]: failed to get winsize'' @ [NL]]\<rparr>)"
proof -
  have g: "global_sctui live = Some 0"
    by (simp add: live_def)
  have "tty_out live = []" "err_out live = []" "orig (structs live 0) = cooked"
    by (simp_all add: live_def busy_def)
  with get_win_cases [OF g, of 0 "Some \<lparr>ws_row = 24, ws_col = 0, ws_xpixel = 0, ws_ypixel = 0\<rparr>"]
  show ?thesis by simp
qed

lemma held_length: "sctui_ok pf s \<Longrightarrow> length (held s) = buf_used s"
  by (simp add: sctui_ok_def held_def)

lemma sprintf_cursor_5_5: "sprintf_cursor 5 5 = ESC # ''[5;5H''"
  by (simp add: sprintf_cursor_def dec_digits)

lemma sprintf_cursor_5_6: "sprintf_cursor 5 6 = ESC # ''[5;6H''"
  by (simp add: sprintf_cursor_def dec_digits)

lemma three_moves:
  assumes ok: "sctui_ok pf (structs wd0 p)" and big: "24 \<le> BUFSIZ pf"
    and at: "cursor_x (structs wd0 p) = 1" "cursor_y (structs wd0 p) = 1"
    and empty: "buf_used (structs wd0 p) = 0"
  shows "\<exists>wd1 wd3. sctui_cursor pf p 5 5 wd0 = Returns wd1 \<and>
     held (structs wd1 p) = ESC # ''[5;5H'' \<and>
     sctui_cursor pf p 5 5 wd1 = Returns wd1 \<and>
     sctui_cursor pf p 6 5 wd1 = Returns wd3 \<and>
     held (structs wd3 p) = ESC # ''[5;5H'' @ ESC # ''[5;6H'' \<and>
     tty_out wd3 = tty_out wd0"
proof -
  have size0: "buf_size (structs wd0 p) = BUFSIZ pf" using ok by (simp add: sctui_ok_def)
  have h0: "held (structs wd0 p) = []" using empty by (simp add: held_def)
  have d0: "\<not> (cursor_x (structs wd0 p) = 5 \<and> cursor_y (structs wd0 p) = 5)"
    using at by simp
  from cursor_moves [OF ok big d0] size0 empty big h0 obtain wd1 where
    r1: "sctui_cursor pf p 5 5 wd0 = Returns wd1" and ok1: "sctui_ok pf (structs wd1 p)"
    and at1: "cursor_x (structs wd1 p) = 5" "cursor_y (structs wd1 p) = 5"
    and o1: "tty_out wd1 = tty_out wd0" and h1: "held (structs wd1 p) = ESC # ''[5;5H''"
    by (auto simp: sprintf_cursor_5_5)
  have r2: "sctui_cursor pf p 5 5 wd1 = Returns wd1"
    using at1 by (rule cursor_same)
  have u1: "buf_used (structs wd1 p) = 6"
    using held_length [OF ok1] h1 by simp
  have size1: "buf_size (structs wd1 p) = BUFSIZ pf" using ok1 by (simp add: sctui_ok_def)
  have d1: "\<not> (cursor_x (structs wd1 p) = 6 \<and> cursor_y (structs wd1 p) = 5)"
    using at1 by simp
  from cursor_moves [OF ok1 big d1] size1 u1 big h1 o1 obtain wd3 where
    "sctui_cursor pf p 6 5 wd1 = Returns wd3"
    "held (structs wd3 p) = ESC # ''[5;5H'' @ ESC # ''[5;6H''" "tty_out wd3 = tty_out wd0"
    by (auto simp: sprintf_cursor_5_6)
  with r1 h1 r2 show ?thesis by blast
qed

text \<open>
  Claim C9, as amended. \<open>sctui_init\<close> records the position (1, 1) and leaves the draw
  buffer empty. The calls \<open>sctui_cursor\<close> with (5, 5), (5, 5) and (6, 5) after it
  append two escape sequences: the first call appends the one for (5, 5), the second
  call changes nothing, the third appends the one for (6, 5), row 5 and column 6.
\<close>

theorem three_moves_after_init:
  assumes "global_sctui wd = None" and "ws_col ws \<noteq> 0" and "24 \<le> BUFSIZ pf"
  shows "\<exists>wd0 wd1 wd3. sctui_init pf p (Some ws) True wd = Returns wd0 \<and>
     held (structs wd0 p) = [] \<and>
     sctui_cursor pf p 5 5 wd0 = Returns wd1 \<and>
     held (structs wd1 p) = ESC # ''[5;5H'' \<and>
     sctui_cursor pf p 5 5 wd1 = Returns wd1 \<and>
     sctui_cursor pf p 6 5 wd1 = Returns wd3 \<and>
     held (structs wd3 p) = ESC # ''[5;5H'' @ ESC # ''[5;6H'' \<and>
     tty_out wd3 = tty_out wd0"
proof -
  from init_returns [OF assms(1,2), of pf p] obtain wd0 where
    r: "sctui_init pf p (Some ws) True wd = Returns wd0" and ok: "sctui_ok pf (structs wd0 p)"
    and at: "cursor_x (structs wd0 p) = 1" "cursor_y (structs wd0 p) = 1"
    and empty: "buf_used (structs wd0 p) = 0" and h0: "held (structs wd0 p) = []"
    by blast
  from three_moves [OF ok assms(3) at empty] r h0 show ?thesis by blast
qed

theorem three_moves_after_init_witness:
  "global_sctui fresh = None \<and> ws_col vt \<noteq> 0 \<and> 24 \<le> BUFSIZ linux \<and>
   (\<exists>wd0 wd1 wd3. sctui_init linux 0 (Some vt) True fresh = Returns wd0 \<and>
      sctui_cursor linux 0 5 5 wd0 = Returns wd1 \<and>
      sctui_cursor linux 0 5 5 wd1 = Returns wd1 \<and>
      sctui_cursor linux 0 6 5 wd1 = Returns wd3 \<and>
      held (structs wd3 0) = ESC # ''[5;5H'' @ ESC # ''[5;6H'')"
proof -
  have a: "global_sctui fresh = None" by (simp add: fresh_def)
  have b: "ws_col vt \<noteq> 0" by (simp add: vt_def)
  have c: "24 \<le> BUFSIZ linux" by (simp add: linux_def)
  from three_moves_after_init [OF a b c, of 0] a b c show ?thesis by blast
qed

text \<open>
  The claim as stated fails: after the three calls the draw buffer holds the sequence
  for (5, 5) in front of the one for (6, 5), not the latter alone.
\<close>

theorem three_moves_after_init_counterexample:
  "held_after 0
     (and_then (and_then (and_then (sctui_init linux 0 (Some vt) True fresh)
        (sctui_cursor linux 0 5 5)) (sctui_cursor linux 0 5 5)) (sctui_cursor linux 0 6 5))
   = Some (ESC # ''[5;5H'' @ ESC # ''[5;6H'')"
proof -
  have "global_sctui fresh = None" "ws_col vt \<noteq> 0"
    by (simp_all add: fresh_def vt_def)
  from init_returns [OF this, of linux 0] obtain wd0 where
    r: "sctui_init linux 0 (Some vt) True fresh = Returns wd0"
    and ok: "sctui_ok linux (structs wd0 0)"
    and at: "cursor_x (structs wd0 0) = 1" "cursor_y (structs wd0 0) = 1"
    and empty: "buf_used (structs wd0 0) = 0"
    by blast
  have big: "24 \<le> BUFSIZ linux" by (simp add: linux_def)
  from three_moves [OF ok big at empty] obtain wd1 wd3 where
    "sctui_cursor linux 0 5 5 wd0 = Returns wd1" "sctui_cursor linux 0 5 5 wd1 = Returns wd1"
    "sctui_cursor linux 0 6 5 wd1 = Returns wd3"
    "held (structs wd3 0) = ESC # ''[5;5H'' @ ESC # ''[5;6H''"
    by blast
  with r show ?thesis by (simp add: and_then_def held_after_def)
qed

section \<open>The claim about reading a key\<close>

text \<open>
  Claim C5, as amended. When a byte arrives before the timeout, \<open>sctui_grab_key\<close>
  stores it in the first byte of the key buffer. When none arrives it stores nothing:
  the key buffer is what it was before the call, so its first byte is whatever the
  caller or an earlier call left there. The function has no result that says "no
  byte".
\<close>

theorem grab_key_keeps_buffer_on_timeout:
  "sctui_grab_key [] keybuf = ([], keybuf) \<and>
   sctui_grab_key (c # rest) (k # ks) = (rest, c # ks)"
  by (simp add: sctui_grab_key_def)

text \<open>
  The claim as stated fails: a call that reads the byte \<open>a\<close> into a cleared key buffer,
  followed by a call during which nothing arrives, leaves the stale \<open>a\<close> in the key
  buffer.
\<close>

theorem grab_key_stale_byte_counterexample:
  "snd (sctui_grab_key [] (snd (sctui_grab_key ''a'' (replicate 12 NUL))))
     = CHR ''a'' # replicate 11 NUL"
  by (simp add: sctui_grab_key_def numeral_nat)

section \<open>Formatting a line: the stores\<close>

lemma strncpy_inside:
  "i + n \<le> length blk \<Longrightarrow> n \<le> length cs \<Longrightarrow>
   strncpy (blk, tr) (int i) cs n = (take i blk @ take n cs @ drop (i + n) blk, tr)"
proof (induction n arbitrary: blk i cs)
  case 0
  then show ?case by simp
next
  case (Suc n)
  then obtain c cs' where cs: "cs = c # cs'" by (cases cs) auto
  have lt: "i < length blk" using Suc.prems by simp
  have p: "poke (blk, tr) (int i) c = (blk[i := c], tr)"
    using lt by (simp add: poke_def)
  have "strncpy (blk[i := c], tr) (int (Suc i)) cs' n
      = (take (Suc i) (blk[i := c]) @ take n cs' @ drop (Suc i + n) (blk[i := c]), tr)"
    by (rule Suc.IH) (use Suc.prems cs in simp_all)
  moreover have "take (Suc i) (blk[i := c]) = take i blk @ [c]"
    using lt by (simp add: take_Suc_conv_app_nth)
  ultimately show ?case using cs p by (simp add: add.commute)
qed

lemma fill_to_inside:
  "i \<le> k \<Longrightarrow> k \<le> length blk \<Longrightarrow>
   fill_to (blk, tr) (int i) (int k) = (take i blk @ replicate (k - i) SP @ drop k blk, tr)"
proof (induction "k - i" arbitrary: i blk)
  case 0
  then show ?case by (simp add: fill_to.simps [of _ "int i"])
next
  case (Suc d)
  have lt: "i < k" "i < length blk" using Suc.hyps(2) Suc.prems by simp_all
  have p: "poke (blk, tr) (int i) SP = (blk[i := SP], tr)"
    using lt by (simp add: poke_def)
  have "fill_to (blk[i := SP], tr) (int (Suc i)) (int k)
      = (take (Suc i) (blk[i := SP]) @ replicate (k - Suc i) SP @ drop k (blk[i := SP]), tr)"
    by (rule Suc.hyps(1)) (use Suc.hyps(2) Suc.prems lt in simp_all)
  moreover have "take (Suc i) (blk[i := SP]) = take i blk @ [SP]"
    using lt by (simp add: take_Suc_conv_app_nth)
  moreover have "replicate (k - i) SP = SP # replicate (k - Suc i) SP"
    using lt by (metis Suc_diff_Suc replicate_Suc)
  ultimately show ?case
    using lt p by (simp add: fill_to.simps [of _ "int i"] add.commute)
qed

lemma load_inside: "i < length blk \<Longrightarrow> load (blk, tr) (int i) = (blk ! i, (blk, tr))"
  by (simp add: load_def)

lemma blank_tail_inside:
  "i \<le> k \<Longrightarrow> k \<le> length blk \<Longrightarrow>
   blank_tail (blk, tr) (int i) (int k) lim
     = ((take i blk @ map (\<lambda>j. if int j < lim \<and> blk ! j \<noteq> NL then blk ! j else SP) [i..<k]
          @ drop k blk, tr), int k)"
proof (induction "k - i" arbitrary: i blk)
  case 0
  then show ?case by (simp add: blank_tail.simps [of _ "int i"])
next
  case (Suc d)
  have lt: "i < k" "i < length blk" using Suc.hyps(2) Suc.prems by simp_all
  have up: "[i..<k] = i # [Suc i..<k]" using lt by (simp add: upt_conv_Cons)
  show ?case
  proof (cases "int i < lim \<and> blk ! i \<noteq> NL")
    case True
    have "blank_tail (blk, tr) (int (Suc i)) (int k) lim
      = ((take (Suc i) blk @ map (\<lambda>j. if int j < lim \<and> blk ! j \<noteq> NL then blk ! j else SP) [Suc i..<k]
          @ drop k blk, tr), int k)"
      by (rule Suc.hyps(1)) (use Suc.hyps(2) Suc.prems lt in simp_all)
    with True lt up show ?thesis
      by (simp add: blank_tail.simps [of _ "int i"] load_inside take_Suc_conv_app_nth add.commute)
  next
    case False
    have p: "poke (blk, tr) (int i) SP = (blk[i := SP], tr)"
      using lt by (simp add: poke_def)
    have "blank_tail (blk[i := SP], tr) (int (Suc i)) (int k) lim
      = ((take (Suc i) (blk[i := SP]) @
          map (\<lambda>j. if int j < lim \<and> blk[i := SP] ! j \<noteq> NL then blk[i := SP] ! j else SP) [Suc i..<k]
          @ drop k (blk[i := SP]), tr), int k)"
      by (rule Suc.hyps(1)) (use Suc.hyps(2) Suc.prems lt in simp_all)
    moreover have "map (\<lambda>j. if int j < lim \<and> blk[i := SP] ! j \<noteq> NL then blk[i := SP] ! j else SP) [Suc i..<k]
       = map (\<lambda>j. if int j < lim \<and> blk ! j \<noteq> NL then blk ! j else SP) [Suc i..<k]"
      by (rule map_cong) simp_all
    moreover have "take (Suc i) (blk[i := SP]) = take i blk @ [SP]"
      using lt by (simp add: take_Suc_conv_app_nth)
    ultimately show ?thesis using False lt up p
      by (auto simp: blank_tail.simps [of _ "int i"] load_inside add.commute)
  qed
qed

lemma int_of_size_small: "n < 2 ^ 31 \<Longrightarrow> int_of_size n = int n"
  by (simp add: int_of_size_def signed_take_bit_int_eq_self)

lemma size_of_int_small: "n < 2 ^ 31 \<Longrightarrow> size_of_int (int n) = n"
  by (simp add: size_of_int_def)

lemma copied_region:
  assumes "l \<le> length text" and "a + l \<le> b"
  shows "map (\<lambda>j. if int j < int a + int l \<and>
                    (replicate a SP @ take l text @ rest) ! j \<noteq> NL
                  then (replicate a SP @ take l text @ rest) ! j else SP) [a..<b]
       = map (\<lambda>c. if c = NL then SP else c) (take l text) @ replicate (b - a - l) SP"
proof (rule nth_equalityI)
  show "length (map (\<lambda>j. if int j < int a + int l \<and>
                    (replicate a SP @ take l text @ rest) ! j \<noteq> NL
                  then (replicate a SP @ take l text @ rest) ! j else SP) [a..<b])
      = length (map (\<lambda>c. if c = NL then SP else c) (take l text) @ replicate (b - a - l) SP)"
    using assms by simp
next
  fix n
  assume "n < length (map (\<lambda>j. if int j < int a + int l \<and>
                    (replicate a SP @ take l text @ rest) ! j \<noteq> NL
                  then (replicate a SP @ take l text @ rest) ! j else SP) [a..<b])"
  then have n: "n < b - a" by simp
  show "map (\<lambda>j. if int j < int a + int l \<and>
                    (replicate a SP @ take l text @ rest) ! j \<noteq> NL
                  then (replicate a SP @ take l text @ rest) ! j else SP) [a..<b] ! n
      = (map (\<lambda>c. if c = NL then SP else c) (take l text) @ replicate (b - a - l) SP) ! n"
  proof (cases "n < l")
    case True
    have "(replicate a SP @ take l text @ rest) ! (a + n) = text ! n"
      using True assms by (simp add: nth_append)
    with True n assms show ?thesis by (simp add: nth_append)
  next
    case False
    with n assms show ?thesis by (simp add: nth_append)
  qed
qed

lemma poke_at_end: "length xs = n \<Longrightarrow> poke (xs @ y # ys, tr) (int n) c = (xs @ c # ys, tr)"
  by (auto simp: poke_def list_update_append)

lemma prepare_text_inside:
  assumes off: "0 \<le> offset" "offset \<le> wid" and room: "wid < int (length blk)"
    and short: "length text < 2 ^ 31"
  shows "sctui_prepare_text (blk, tr) offset wid text
     = (replicate (nat offset) SP @
        map (\<lambda>c. if c = NL then SP else c) (take (nat (wid - offset)) text) @
        replicate (nat (wid - offset) - length text) SP @
        NUL # drop (Suc (nat wid)) blk, tr)"
proof -
  define a where "a = nat offset"
  define b where "b = nat wid"
  define l where "l = min (b - a) (length text)"
  have ow: "offset = int a" "wid = int b" "a \<le> b" "b < length blk"
    using off room by (simp_all add: a_def b_def)
  have ll: "l \<le> length text" "a + l \<le> b" "l < 2 ^ 31"
    using ow short by (simp_all add: l_def)
  have len: "(if wid - offset > int_of_size (length text) then int_of_size (length text)
              else wid - offset) = int l"
    using ow short by (auto simp: int_of_size_small l_def)
  have m1: "strncpy (blk, tr) offset text (size_of_int (int l))
      = (take a blk @ take l text @ drop (a + l) blk, tr)"
    unfolding ow size_of_int_small [OF ll(3)]
    by (rule strncpy_inside) (use ll ow in simp_all)
  have m2: "fill_to (take a blk @ take l text @ drop (a + l) blk, tr) 0 offset
      = (replicate a SP @ take l text @ drop (a + l) blk, tr)"
    using fill_to_inside [of 0 a "take a blk @ take l text @ drop (a + l) blk" tr] ow ll
    by simp
  have m3: "blank_tail (replicate a SP @ take l text @ drop (a + l) blk, tr) offset wid
        (offset + int l)
      = ((replicate a SP @ map (\<lambda>c. if c = NL then SP else c) (take l text) @
          replicate (b - a - l) SP @ drop b blk, tr), int b)"
  proof -
    have d: "drop b (replicate a SP @ take l text @ drop (a + l) blk) = drop b blk"
      using ow ll by simp
    have "blank_tail (replicate a SP @ take l text @ drop (a + l) blk, tr) (int a) (int b)
        (int a + int l)
      = ((take a (replicate a SP @ take l text @ drop (a + l) blk) @
          map (\<lambda>j. if int j < int a + int l \<and>
                    (replicate a SP @ take l text @ drop (a + l) blk) ! j \<noteq> NL
                  then (replicate a SP @ take l text @ drop (a + l) blk) ! j else SP) [a..<b] @
          drop b (replicate a SP @ take l text @ drop (a + l) blk), tr), int b)"
      by (rule blank_tail_inside) (use ow ll in simp_all)
    then show ?thesis
      unfolding d copied_region [OF ll(1,2)] ow by simp
  qed
  have fin: "poke (replicate a SP @ map (\<lambda>c. if c = NL then SP else c) (take l text) @
          replicate (b - a - l) SP @ drop b blk, tr) (int b) NUL
      = (replicate a SP @ map (\<lambda>c. if c = NL then SP else c) (take l text) @
          replicate (b - a - l) SP @ NUL # drop (Suc b) blk, tr)"
  proof -
    have d: "drop b blk = blk ! b # drop (Suc b) blk"
      using ow by (simp add: Cons_nth_drop_Suc)
    have n: "length (replicate a SP @ map (\<lambda>c. if c = NL then SP else c) (take l text) @
          replicate (b - a - l) SP) = b"
      using ow ll by simp
    from poke_at_end [OF n, of "blk ! b" "drop (Suc b) blk" tr NUL] show ?thesis
      unfolding d by simp
  qed
  have tk: "take l text = take (b - a) text" by (simp add: l_def min_def)
  have pad: "b - a - l = (b - a) - length text" by (simp add: l_def min_def)
  have wo: "nat (wid - offset) = b - a" using ow by simp
  show ?thesis
    unfolding sctui_prepare_text_def Let_def len m1 m2 m3 fst_conv snd_conv fin
    unfolding tk pad wo a_def [symmetric] b_def [symmetric] ..
qed

lemma log_poke: "length (snd m) \<le> length (snd (poke m i c))"
  by (simp add: poke_def)

lemma log_load: "length (snd m) \<le> length (snd (snd (load m i)))"
  by (simp add: load_def)

lemma log_strncpy: "length (snd m) \<le> length (snd (strncpy m i cs n))"
proof (induction n arbitrary: m i cs)
  case 0
  then show ?case by simp
next
  case (Suc n)
  show ?case
  proof (cases cs)
    case Nil
    with Suc.IH [of "poke m i NUL" "i + 1" "[]"] log_poke [of m i NUL] show ?thesis by simp
  next
    case (Cons c cs')
    with Suc.IH [of "poke m i c" "i + 1" cs'] log_poke [of m i c] show ?thesis by simp
  qed
qed

lemma log_fill_to: "length (snd m) \<le> length (snd (fill_to m i k))"
proof (induction m i k rule: fill_to.induct)
  case (1 m i offset)
  show ?case
  proof (cases "i < offset")
    case True
    with "1.IH" log_poke [of m i SP] show ?thesis
      by (simp add: fill_to.simps [of m i])
  next
    case False
    then show ?thesis by (simp add: fill_to.simps [of m i])
  qed
qed

lemma log_blank_tail: "length (snd m) \<le> length (snd (fst (blank_tail m i k lim)))"
proof (induction m i k lim rule: blank_tail.induct)
  case (1 m i wid lim)
  show ?case
  proof (cases "i < wid")
    case False
    then show ?thesis by (simp add: blank_tail.simps [of m i])
  next
    case True
    note inside = True
    show ?thesis
    proof (cases "i < lim")
      case False
      with inside "1.IH"(3) log_poke [of m i SP] show ?thesis
        by (simp add: blank_tail.simps [of m i])
    next
      case True
      note lim = True
      show ?thesis
      proof (cases "fst (load m i) \<noteq> NL")
        case True
        with inside lim "1.IH"(1) log_load [of m i] show ?thesis
          by (simp add: blank_tail.simps [of m i])
      next
        case False
        with inside lim "1.IH"(2) log_load [of m i] log_poke [of "snd (load m i)" i SP]
        show ?thesis
          by (simp add: blank_tail.simps [of m i])
      qed
    qed
  qed
qed

lemma strncpy_overrun:
  "0 < n \<Longrightarrow> int (length (fst m)) < i + int n \<Longrightarrow>
   length (snd m) < length (snd (strncpy m i cs n))"
proof (induction n arbitrary: m i cs)
  case 0
  then show ?case by simp
next
  case (Suc n)
  define c where "c = (case cs of [] \<Rightarrow> NUL | x # _ \<Rightarrow> x)"
  define cs' where "cs' = (case cs of [] \<Rightarrow> [] | _ # xs \<Rightarrow> xs)"
  have step: "strncpy m i cs (Suc n) = strncpy (poke m i c) (i + 1) cs' n"
    by (cases cs) (simp_all add: c_def cs'_def)
  show ?case
  proof (cases "0 \<le> i \<and> i < int (length (fst m))")
    case False
    then have "length (snd m) < length (snd (poke m i c))" by (auto simp: poke_def)
    with log_strncpy [of "poke m i c" "i + 1" cs' n] step show ?thesis by simp
  next
    case True
    then have same: "snd (poke m i c) = snd m" "length (fst (poke m i c)) = length (fst m)"
      by (simp_all add: poke_def)
    have "0 < n" using True Suc.prems by simp
    moreover have "int (length (fst (poke m i c))) < (i + 1) + int n"
      using Suc.prems same by simp
    ultimately have "length (snd (poke m i c)) < length (snd (strncpy (poke m i c) (i + 1) cs' n))"
      by (rule Suc.IH)
    with same step show ?thesis by simp
  qed
qed

lemma int_of_size_range: "- (2 ^ 31) \<le> int_of_size n"
  unfolding int_of_size_def by (rule signed_take_bit_int_greater_eq_minus_exp)

lemma prepare_text_negative_room:
  assumes neg: "wid < offset" and range: "- (2 ^ 31) \<le> wid" "- (2 ^ 31) \<le> offset" "offset < 2 ^ 31"
    and blk: "length (fst m) < 2 ^ 63"
  shows "length (snd m) < length (snd (sctui_prepare_text m offset wid text))"
proof -
  define len where "len = (if wid - offset > int_of_size (length text)
    then int_of_size (length text) else wid - offset)"
  have l: "len < 0" "- (2 ^ 32) \<le> len"
    using neg range int_of_size_range [of "length text"] by (auto simp: len_def)
  have n: "int (size_of_int len) = 2 ^ 64 + len"
  proof -
    have "len mod 2 ^ 64 = (len + 2 ^ 64) mod 2 ^ 64" by simp
    also have "\<dots> = len + 2 ^ 64" using l by (intro mod_pos_pos_trivial) simp_all
    finally show ?thesis using l by (simp add: size_of_int_def)
  qed
  have "0 < int (size_of_int len)" unfolding n using l by simp
  then have "0 < size_of_int len" by simp
  moreover have "int (length (fst m)) < offset + int (size_of_int len)"
    using n l range blk by simp
  ultimately have a: "length (snd m) < length (snd (strncpy m offset text (size_of_int len)))"
    by (rule strncpy_overrun)
  let ?m1 = "strncpy m offset text (size_of_int len)"
  let ?m2 = "fill_to ?m1 0 offset"
  let ?r = "blank_tail ?m2 offset wid (offset + len)"
  have "length (snd ?m1) \<le> length (snd ?m2)" by (rule log_fill_to)
  also have "\<dots> \<le> length (snd (fst ?r))" by (rule log_blank_tail)
  also have "\<dots> \<le> length (snd (poke (fst ?r) (snd ?r) NUL))" by (rule log_poke)
  finally show ?thesis using a
    by (simp add: sctui_prepare_text_def Let_def len_def [symmetric])
qed

lemma c_str_line: "NUL \<notin> set xs \<Longrightarrow> c_str (xs @ NUL # ys) = xs"
  by (induction xs) (auto simp: c_str_def)

lemma drop_behind: "length xs = n \<Longrightarrow> drop (Suc n) (xs @ y # ys) = ys"
  by simp

section \<open>The claims about formatting a line\<close>

text \<open>
  Inside the range the function is written for, \<open>0 \<le> offset \<le> w\<close>, with a text
  without NUL that is shorter than \<open>2 ^ 31\<close> bytes and a destination of more than
  \<open>w\<close> bytes, \<open>sctui_prepare_text\<close> stays inside the destination and leaves there a
  C string of exactly \<open>w\<close> characters: \<open>offset\<close> spaces, then the first \<open>w - offset\<close>
  characters of the text (all of it when it is shorter) with every newline replaced
  by a space, then spaces up to \<open>w\<close>, then the terminator at index \<open>w\<close>. No newline
  is left in the line, and the bytes behind the terminator are untouched.
\<close>

lemma prepare_text_line:
  assumes "0 \<le> offset" and "offset \<le> wid" and "wid < int (length blk)"
    and "length text < 2 ^ 31" and "NUL \<notin> set text"
  shows "snd (sctui_prepare_text (blk, tr) offset wid text) = tr \<and>
    c_str (fst (sctui_prepare_text (blk, tr) offset wid text))
      = replicate (nat offset) SP @
        map (\<lambda>c. if c = NL then SP else c) (take (nat (wid - offset)) text) @
        replicate (nat (wid - offset) - length text) SP \<and>
    length (c_str (fst (sctui_prepare_text (blk, tr) offset wid text))) = nat wid \<and>
    NL \<notin> set (c_str (fst (sctui_prepare_text (blk, tr) offset wid text))) \<and>
    fst (sctui_prepare_text (blk, tr) offset wid text) ! nat wid = NUL \<and>
    drop (Suc (nat wid)) (fst (sctui_prepare_text (blk, tr) offset wid text))
      = drop (Suc (nat wid)) blk"
proof -
  let ?line = "replicate (nat offset) SP @
        map (\<lambda>c. if c = NL then SP else c) (take (nat (wid - offset)) text) @
        replicate (nat (wid - offset) - length text) SP"
  let ?rest = "drop (Suc (nat wid)) blk"
  have r: "sctui_prepare_text (blk, tr) offset wid text = (?line @ NUL # ?rest, tr)"
    using prepare_text_inside [OF assms(1-4), of tr] by (simp only: append_assoc)
  have n: "length ?line = nat wid"
    using assms(1,2) by (simp add: min_def)
  have "NUL \<notin> set ?line"
    using assms(5) by (auto dest: in_set_takeD)
  then have c: "c_str (?line @ NUL # ?rest) = ?line"
    by (rule c_str_line)
  have nl: "NL \<notin> set ?line" by auto
  have t: "(?line @ NUL # ?rest) ! nat wid = NUL"
    using nth_append_length [of ?line NUL ?rest] unfolding n .
  have d: "drop (Suc (nat wid)) (?line @ NUL # ?rest) = ?rest"
    by (rule drop_behind) (rule n)
  have "snd (?line @ NUL # ?rest, tr) = tr \<and>
    c_str (fst (?line @ NUL # ?rest, tr)) = ?line \<and>
    length (c_str (fst (?line @ NUL # ?rest, tr))) = nat wid \<and>
    NL \<notin> set (c_str (fst (?line @ NUL # ?rest, tr))) \<and>
    fst (?line @ NUL # ?rest, tr) ! nat wid = NUL \<and>
    drop (Suc (nat wid)) (fst (?line @ NUL # ?rest, tr)) = ?rest"
    unfolding fst_conv snd_conv c using n nl t d by (intro conjI refl)
  then show ?thesis unfolding r .
qed

lemma prepare_text_line_example:
  "(0 :: int) \<le> 2 \<and> (2 :: int) \<le> 6 \<and> 6 < int (length ''#######'') \<and>
   length (''hi'' @ NL # ''yo'') < 2 ^ 31 \<and> NUL \<notin> set (''hi'' @ NL # ''yo'') \<and>
   snd (sctui_prepare_text (''#######'', []) 2 6 (''hi'' @ NL # ''yo'')) = [] \<and>
   c_str (fst (sctui_prepare_text (''#######'', []) 2 6 (''hi'' @ NL # ''yo''))) = ''  hi y''"
proof -
  have h: "(0 :: int) \<le> 2" "(2 :: int) \<le> 6" "6 < int (length ''#######'')"
    "length (''hi'' @ NL # ''yo'') < 2 ^ 31" "NUL \<notin> set (''hi'' @ NL # ''yo'')"
    by simp_all
  have e: "replicate (nat 2) SP @
        map (\<lambda>c. if c = NL then SP else c) (take (nat (6 - 2)) (''hi'' @ NL # ''yo'')) @
        replicate (nat (6 - 2) - length (''hi'' @ NL # ''yo'')) SP = ''  hi y''"
    by (simp add: numeral_2_eq_2 eval_nat_numeral)
  from prepare_text_line [OF h, of "[]"] have
    "snd (sctui_prepare_text (''#######'', []) 2 6 (''hi'' @ NL # ''yo'')) = []"
    "c_str (fst (sctui_prepare_text (''#######'', []) 2 6 (''hi'' @ NL # ''yo''))) = ''  hi y''"
    unfolding e by blast+
  with h show ?thesis by (intro conjI)
qed

text \<open>
  Claim C2. The claim holds for all offsets, widths and texts that the call produces
  a line of exactly \<open>w\<close> characters plus terminator. With offset 7, width 6, the text
  of the claim's example and a destination of 7 bytes, \<open>w - offset\<close> is -1, the
  negative length reaches \<open>strncpy\<close> as a count of \<open>2 ^ 64 - 1\<close> bytes, and the call
  stores outside the destination. The source bounds the length from above by the
  length of the text and misses the bound from below.
\<close>

theorem prepare_text_overruns_beyond_width:
  "snd (sctui_prepare_text (''#######'', []) 7 6 (''hi'' @ NL # ''yo'')) \<noteq> []"
proof -
  have "length (snd (''#######'', [] :: int list))
      < length (snd (sctui_prepare_text (''#######'', []) 7 6 (''hi'' @ NL # ''yo'')))"
    by (rule prepare_text_negative_room) simp_all
  then show ?thesis by auto
qed

text \<open>
  Claim C7. The claim holds that a call with \<open>offset \<ge> w\<close> gives a blank line of \<open>w\<close>
  spaces and that a call with \<open>w \<le> 0\<close> or \<open>w - offset < 0\<close> never touches memory
  outside the destination. With offset 3 and width 2, and with offset 0 and width -1,
  the negative length becomes a count of nearly \<open>2 ^ 64\<close> bytes for \<open>strncpy\<close>, which
  stores outside the destination (lemma \<open>prepare_text_negative_room\<close>: so does every
  call with \<open>w < offset\<close>, whatever the text and the size of the destination).
\<close>

theorem prepare_text_leaves_destination:
  "snd (sctui_prepare_text (''###'', []) 3 2 []) \<noteq> [] \<and>
   snd (sctui_prepare_text (''#'', []) 0 (- 1) ''a'') \<noteq> []"
proof -
  have "length (snd (''###'', [] :: int list))
      < length (snd (sctui_prepare_text (''###'', []) 3 2 []))"
    by (rule prepare_text_negative_room) simp_all
  moreover have "length (snd (''#'', [] :: int list))
      < length (snd (sctui_prepare_text (''#'', []) 0 (- 1) ''a''))"
    by (rule prepare_text_negative_room) simp_all
  ultimately show ?thesis by auto
qed

end
